theory Spec2Isabelle
  imports Complex_Main "HOL-Library.AList"
begin

section \<open>Shared Python notions\<close>

text \<open>
  Exceptions are values. \<open>SQLValidationError\<close> and the \<open>ValueError\<close>s of the reasoner and
  generator carry a tag for the \<^verbatim>\<open>raise\<close> statement they come from; the other
  constructors are the built-in exceptions that the modelled code can let escape.
\<close>

datatype py_error =
    InvalidSQL
  | NotSelect
  | MissingFrom
  | NonLiteralLimit
  | DisallowedFunction
  | IntValueError string
  | TypeError
  | AttributeError
  | KeyError string
  | UnknownTable string
  | UnknownContextTable string
  | UnknownColumn string string
  | ReasonerInvalidSchema "string list"
  | NoTablesProvided
  | UnpackValueError
  | RateLimitExceeded
  | GuardrailRejected
  | OSError
  | ExplainError
  | StageError string

text \<open>
  Sequencing of computations that may raise: the first exception ends the computation.
\<close>

fun ebind :: "py_error + 'a \<Rightarrow> ('a \<Rightarrow> py_error + 'b) \<Rightarrow> py_error + 'b" where
  "ebind (Inl e) f = Inl e"
| "ebind (Inr x) f = f x"

text \<open>
  Strings are lists of 8-bit characters. \<^verbatim>\<open>str.lower()\<close> is modelled on ASCII: the 26
  capital letters are mapped to their small counterparts and every other character is
  left as it is.
\<close>

definition lower_char :: "char \<Rightarrow> char" where
  "lower_char c =
     (case map_of (zip ''ABCDEFGHIJKLMNOPQRSTUVWXYZ'' ''abcdefghijklmnopqrstuvwxyz'') c of
        None \<Rightarrow> c
      | Some d \<Rightarrow> d)"

definition lower :: "string \<Rightarrow> string" where
  "lower s = map lower_char s"

text \<open>
  Decoded JSON values, as \<^verbatim>\<open>json.loads\<close> and asyncpg hand them to the program. An object
  is an association list (dict lookup is \<open>map_of\<close>). A float is represented by the rational
  it denotes; Python compares int and float by value, so the comparison of the model is
  the comparison of the code (NaN and the infinities are left out).
\<close>

datatype json =
    JNull
  | JBool bool
  | JInt int
  | JFloat rat
  | JStr string
  | JArr "json list"
  | JObj "(string \<times> json) list"

text \<open>\<^verbatim>\<open>d.get(key, default)\<close> on a dict given by its items.\<close>

definition dict_get :: "(string \<times> json) list \<Rightarrow> string \<Rightarrow> json \<Rightarrow> json" where
  "dict_get kvs k dflt = (case map_of kvs k of None \<Rightarrow> dflt | Some v \<Rightarrow> v)"

text \<open>
  \<^verbatim>\<open>x > bound\<close> for a decoded JSON value \<open>x\<close> and a number \<open>bound\<close>: numbers and booleans
  (\<^verbatim>\<open>True == 1\<close>) compare by value, anything else raises \<^verbatim>\<open>TypeError\<close>.
\<close>

fun py_gt :: "json \<Rightarrow> rat \<Rightarrow> py_error + bool" where
  "py_gt (JInt i) b = Inr (of_int i > b)"
| "py_gt (JFloat r) b = Inr (r > b)"
| "py_gt (JBool t) b = Inr ((if t then 1 else 0) > b)"
| "py_gt _ b = Inl TypeError"

section \<open>Guardrail engine (guardrails.py)\<close>

record SQLGuardrailConfig =
  row_threshold :: int
  cost_threshold :: int
  disallowed_functions :: "string list"

record metrics =
  plan_rows :: json
  plan_width :: json
  total_cost :: json
  node_type :: json

text \<open>
  \<^verbatim>\<open>_extract_metrics\<close>: \<^verbatim>\<open>root = plan.get("Plan", {})\<close>, then four \<^verbatim>\<open>root.get\<close> with
  defaults. \<^verbatim>\<open>.get\<close> on a value that is not a dict raises \<^verbatim>\<open>AttributeError\<close>.
\<close>

definition extract_metrics :: "json \<Rightarrow> py_error + metrics" where
  "extract_metrics plan =
     (case plan of
        JObj kvs \<Rightarrow>
          (case dict_get kvs ''Plan'' (JObj []) of
             JObj root_items \<Rightarrow>
               Inr \<lparr> plan_rows = dict_get root_items ''Plan Rows'' (JInt 0),
                     plan_width = dict_get root_items ''Plan Width'' (JInt 0),
                     total_cost = dict_get root_items ''Total Cost'' (JFloat 0),
                     node_type = dict_get root_items ''Node Type'' (JStr '''') \<rparr>
           | _ \<Rightarrow> Inl AttributeError)
      | _ \<Rightarrow> Inl AttributeError)"

text \<open>
  \<^verbatim>\<open>_apply_rules\<close>: three tests in the order of the source, each returning \<^verbatim>\<open>False\<close> as soon
  as it fires. In the third, \<^verbatim>\<open>.lower()\<close> is evaluated first (a value that is not a string
  raises \<^verbatim>\<open>AttributeError\<close>) and \<^verbatim>\<open>and\<close> short-circuits. \<^verbatim>\<open>row_threshold / 10\<close> is Python's
  true division, taken here as the exact quotient. The argument \<open>table_stats\<close> is unused,
  as in the source.
\<close>

definition apply_rules :: "SQLGuardrailConfig \<Rightarrow> metrics \<Rightarrow> 'ts \<Rightarrow> py_error + bool" where
  "apply_rules cfg m table_stats =
     ebind (py_gt (plan_rows m) (of_int (row_threshold cfg))) (\<lambda>rows_exceeded.
       if rows_exceeded then Inr False
       else ebind (py_gt (total_cost m) (of_int (cost_threshold cfg))) (\<lambda>cost_exceeded.
         if cost_exceeded then Inr False
         else (case node_type m of
                 JStr s \<Rightarrow>
                   if lower s = ''seq scan'' then
                     ebind (py_gt (plan_rows m) (of_int (row_threshold cfg) / 10)) (\<lambda>seq_exceeded.
                       if seq_exceeded then Inr False else Inr True)
                   else Inr True
               | _ \<Rightarrow> Inl AttributeError)))"

text \<open>
  \<^verbatim>\<open>guardrail_check\<close>. The EXPLAIN round trip (\<^verbatim>\<open>_run_explain\<close>) is the database's: its
  outcome, the first plan object or the exception it raised, is the argument \<open>explain\<close>.
\<close>

definition guardrail_check ::
  "SQLGuardrailConfig \<Rightarrow> py_error + json \<Rightarrow> 'ts \<Rightarrow> py_error + (bool \<times> metrics)" where
  "guardrail_check cfg explain table_stats =
     ebind explain (\<lambda>plan.
       ebind (extract_metrics plan) (\<lambda>m.
         ebind (apply_rules cfg m table_stats) (\<lambda>allowed.
           Inr (allowed, m))))"


section \<open>Rate limiter (rate\_limiter.py)\<close>

record SecurityConfig =
  enable_rate_limiting :: bool
  max_requests_per_minute :: int

text \<open>
  \<open>self._requests\<close> is a \<^verbatim>\<open>defaultdict(deque)\<close>: every key has a deque, empty until a
  request is recorded. A deque is the list of its timestamps, oldest first. A timestamp
  (\<^verbatim>\<open>time.time()\<close>) is the rational number the float denotes; \<^verbatim>\<open>now - self._window\<close> is
  the exact difference.
\<close>

type_synonym 'k rate_state = "'k \<Rightarrow> rat list"

definition window :: rat where
  "window = 60"

text \<open>\<^verbatim>\<open>while queue and queue[0] < window_start: queue.popleft()\<close>\<close>

fun evict :: "rat \<Rightarrow> rat list \<Rightarrow> rat list" where
  "evict window_start [] = []"
| "evict window_start (t # queue) =
     (if t < window_start then evict window_start queue else t # queue)"

text \<open>
  \<open>RateLimiter.allow\<close>. The body runs under the limiter's lock, so one call is one step
  from the state before to the state after; \<open>now\<close> is the clock reading of the call.
\<close>

definition allow ::
  "SecurityConfig \<Rightarrow> rat \<Rightarrow> 'k \<Rightarrow> 'k rate_state \<Rightarrow> bool \<times> 'k rate_state" where
  "allow cfg now key requests =
     (if \<not> enable_rate_limiting cfg then (True, requests)
      else
        let window_start = now - window;
            queue = evict window_start (requests key)
        in if int (length queue) \<ge> max_requests_per_minute cfg
           then (False, requests(key := queue))
           else (True, requests(key := queue @ [now])))"


section \<open>Schema slicer (schema\_selector.py)\<close>

record SchemaConfig =
  refresh_interval_s :: int
  max_schema_slice_bytes :: int
  ranker_top_n :: int

text \<open>
  A snapshot holds the table metadata by table id, the foreign keys and the table
  statistics. A table's
  metadata is a decoded JSON value (the snapshot may come back from the cache). The
  \<^verbatim>\<open>.get\<close> calls on a foreign key give \<^verbatim>\<open>None\<close> for a missing entry, hence the options.
\<close>

record foreign_key =
  fk_table :: "string option"
  fk_foreign_table :: "string option"
  fk_definition :: "string option"

record snapshot =
  tables :: "(string \<times> json) list"
  foreign_keys :: "foreign_key list"
  table_stats :: "(string \<times> json) list"

record schema_slice =
  slice_tables :: "(string \<times> json) list"
  slice_foreign_keys :: "string list list"

text \<open>Python truth value of a decoded JSON value (\<^verbatim>\<open>not meta\<close> is its negation).\<close>

fun truthy :: "json \<Rightarrow> bool" where
  "truthy JNull = False"
| "truthy (JBool b) = b"
| "truthy (JInt i) = (i \<noteq> 0)"
| "truthy (JFloat r) = (r \<noteq> 0)"
| "truthy (JStr s) = (s \<noteq> [])"
| "truthy (JArr xs) = (xs \<noteq> [])"
| "truthy (JObj kvs) = (kvs \<noteq> [])"

text \<open>
  The first loop of \<open>select_schema_slice\<close>, with its two variables \<open>slice_tables\<close> and
  \<open>total_bytes\<close> as accumulators. \<open>dumps\<close> is \<^verbatim>\<open>json.dumps\<close>, whose output is ASCII, so that
  the length of the UTF-8 encoding is the length of the string. \<^verbatim>\<open>continue\<close> goes on with
  the accumulators unchanged, \<^verbatim>\<open>break\<close> ends the loop, and \<^verbatim>\<open>slice_tables[table_id] = meta\<close>
  is the update of an insertion-ordered dict.
\<close>

fun select_tables ::
  "(json \<Rightarrow> string) \<Rightarrow> (string \<times> json) list \<Rightarrow> int \<Rightarrow> string list \<Rightarrow>
   (string \<times> json) list \<Rightarrow> nat \<Rightarrow> (string \<times> json) list \<times> nat" where
  "select_tables dumps tbls budget [] slice total_bytes = (slice, total_bytes)"
| "select_tables dumps tbls budget (table_id # table_ids) slice total_bytes =
     (case map_of tbls table_id of
        None \<Rightarrow> select_tables dumps tbls budget table_ids slice total_bytes
      | Some meta \<Rightarrow>
          if \<not> truthy meta then select_tables dumps tbls budget table_ids slice total_bytes
          else
            let total_bytes' = total_bytes + length (dumps meta)
            in if int total_bytes' > budget then (slice, total_bytes')
               else select_tables dumps tbls budget table_ids
                      (AList.update table_id meta slice) total_bytes')"

text \<open>\<^verbatim>\<open>str.split(sep)\<close> for a one-character separator, and \<^verbatim>\<open>str.strip()\<close>.\<close>

fun split_on :: "char \<Rightarrow> string \<Rightarrow> string list" where
  "split_on sep [] = [[]]"
| "split_on sep (c # cs) =
     (if c = sep then [] # split_on sep cs
      else (case split_on sep cs of
              [] \<Rightarrow> [[c]]
            | part # parts \<Rightarrow> (c # part) # parts))"

definition is_space :: "char \<Rightarrow> bool" where
  "is_space c = (c \<in> set [CHR '' '', CHR 0x09, CHR 0x0A, CHR 0x0B, CHR 0x0C, CHR 0x0D,
       CHR 0x1C, CHR 0x1D, CHR 0x1E, CHR 0x1F])"

definition strip :: "string \<Rightarrow> string" where
  "strip s = rev (dropWhile is_space (rev (dropWhile is_space s)))"

text \<open>
  \<open>_extract_fk_column\<close>: the \<open>index\<close>-th piece after splitting at \<^verbatim>\<open>(\<close>, up to its first
  \<^verbatim>\<open>)\<close>, stripped; the empty string when there is no such piece (the \<^verbatim>\<open>IndexError\<close> is
  caught).
\<close>

definition extract_fk_column :: "string \<Rightarrow> nat \<Rightarrow> string" where
  "extract_fk_column definition index =
     (let parts = split_on CHR ''('' definition
      in if index < length parts then strip (hd (split_on CHR '')'' (parts ! index))) else [])"

text \<open>
  The second loop: a foreign key is kept when both its tables are keys of the slice.
\<close>

fun select_foreign_keys :: "string list \<Rightarrow> foreign_key list \<Rightarrow> string list list" where
  "select_foreign_keys keys [] = []"
| "select_foreign_keys keys (fk # fks) =
     (case (fk_table fk, fk_foreign_table fk) of
        (Some t, Some ft) \<Rightarrow>
          if t \<in> set keys \<and> ft \<in> set keys then
            (let d = (case fk_definition fk of None \<Rightarrow> [] | Some d \<Rightarrow> d)
             in [t, extract_fk_column d 1, ft, extract_fk_column d 2]
                # select_foreign_keys keys fks)
          else select_foreign_keys keys fks
      | _ \<Rightarrow> select_foreign_keys keys fks)"

definition select_schema_slice ::
  "(json \<Rightarrow> string) \<Rightarrow> snapshot \<Rightarrow> string list \<Rightarrow> SchemaConfig \<Rightarrow> schema_slice" where
  "select_schema_slice dumps snap table_ids cfg =
     (let (slice, total_bytes) =
            select_tables dumps (tables snap) (max_schema_slice_bytes cfg) table_ids [] 0
      in \<lparr> slice_tables = slice,
           slice_foreign_keys = select_foreign_keys (map fst slice) (foreign_keys snap) \<rparr>)"

text \<open>
  The bytes counted after walking a sequence of table ids: the serialized length of
  every id that names a table with non-empty metadata.
\<close>

fun counted_bytes :: "(json \<Rightarrow> string) \<Rightarrow> (string \<times> json) list \<Rightarrow> string list \<Rightarrow> nat" where
  "counted_bytes dumps tbls [] = 0"
| "counted_bytes dumps tbls (table_id # table_ids) =
     (case map_of tbls table_id of
        None \<Rightarrow> counted_bytes dumps tbls table_ids
      | Some meta \<Rightarrow>
          (if truthy meta then length (dumps meta) else 0) + counted_bytes dumps tbls table_ids)"

text \<open>The sum of the serialized lengths over the tables of a slice.\<close>

definition slice_bytes :: "(json \<Rightarrow> string) \<Rightarrow> (string \<times> json) list \<Rightarrow> nat" where
  "slice_bytes dumps slice = sum_list (map (\<lambda>(table_id, meta). length (dumps meta)) slice)"

section \<open>Reasoner (llm\_reasoner.py)\<close>

text \<open>
  The reasoner's reply after JSON decoding. Every entry is read with \<^verbatim>\<open>.get\<close> and a
  default, so each may be absent; a \<open>schema_context\<close> payload may lack \<open>columns\<close>.
\<close>

record reasoner_output =
  query_intent :: "string option"
  relevant_tables :: "string list option"
  schema_context :: "(string \<times> string list option) list option"
  foreign_keys_map :: "string list list option"

text \<open>
  \<^verbatim>\<open>schema_slice["tables"][table]["columns"].keys()\<close> for a table of the slice: the
  metadata must be a dict with a dict under \<open>columns\<close>.
\<close>

definition allowed_columns :: "json \<Rightarrow> py_error + string list" where
  "allowed_columns meta =
     (case meta of
        JObj kvs \<Rightarrow>
          (case map_of kvs ''columns'' of
             None \<Rightarrow> Inl (KeyError ''columns'')
           | Some (JObj cols) \<Rightarrow> Inr (map fst cols)
           | Some _ \<Rightarrow> Inl AttributeError)
      | _ \<Rightarrow> Inl TypeError)"

text \<open>The three loops of \<open>_enforce_schema_bounds\<close>; each stops at the first \<^verbatim>\<open>raise\<close>.\<close>

fun check_relevant_tables :: "string list \<Rightarrow> string list \<Rightarrow> py_error + unit" where
  "check_relevant_tables allowed_tables [] = Inr ()"
| "check_relevant_tables allowed_tables (t # ts) =
     (if t \<notin> set allowed_tables then Inl (UnknownTable t)
      else check_relevant_tables allowed_tables ts)"

fun check_columns :: "string \<Rightarrow> string list \<Rightarrow> string list \<Rightarrow> py_error + unit" where
  "check_columns t allowed [] = Inr ()"
| "check_columns t allowed (c # cs) =
     (if c \<notin> set allowed then Inl (UnknownColumn t c)
      else check_columns t allowed cs)"

fun check_schema_context ::
  "(string \<times> json) list \<Rightarrow> (string \<times> string list option) list \<Rightarrow> py_error + unit" where
  "check_schema_context slice [] = Inr ()"
| "check_schema_context slice ((t, payload) # items) =
     (case map_of slice t of
        None \<Rightarrow> Inl (UnknownContextTable t)
      | Some meta \<Rightarrow>
          ebind (allowed_columns meta) (\<lambda>allowed.
            ebind (check_columns t allowed (case payload of None \<Rightarrow> [] | Some cs \<Rightarrow> cs)) (\<lambda>_.
              check_schema_context slice items)))"

definition enforce_schema_bounds :: "reasoner_output \<Rightarrow> schema_slice \<Rightarrow> py_error + unit" where
  "enforce_schema_bounds result slice =
     ebind (check_relevant_tables (map fst (slice_tables slice))
              (case relevant_tables result of None \<Rightarrow> [] | Some ts \<Rightarrow> ts)) (\<lambda>_.
       check_schema_context (slice_tables slice)
         (case schema_context result of None \<Rightarrow> [] | Some items \<Rightarrow> items))"

text \<open>
  \<open>reason_schema_with_llm\<close>. The model's reply (\<open>complete_json\<close>, which may raise) is the
  argument \<open>reply\<close>; \<open>validator\<close> is the structural JSON-schema validator, giving the
  list of its error messages.
\<close>

definition reason_schema_with_llm ::
  "(reasoner_output \<Rightarrow> string list) \<Rightarrow> py_error + reasoner_output \<Rightarrow> schema_slice \<Rightarrow>
   py_error + reasoner_output" where
  "reason_schema_with_llm validator reply slice =
     ebind reply (\<lambda>result.
       let errors = validator result
       in if errors \<noteq> [] then Inl (ReasonerInvalidSchema errors)
          else ebind (enforce_schema_bounds result slice) (\<lambda>_. Inr result))"

text \<open>The column names of a slice table, empty when the metadata has no \<open>columns\<close> dict.\<close>

definition columns_of :: "(string \<times> json) list \<Rightarrow> string \<Rightarrow> string set" where
  "columns_of slice t =
     (case map_of slice t of
        None \<Rightarrow> {}
      | Some meta \<Rightarrow> (case allowed_columns meta of Inl e \<Rightarrow> {} | Inr cols \<Rightarrow> set cols))"

text \<open>
  The bounds of the reasoner's reply with respect to a slice: the relevant tables and
  the tables of the schema context are tables of the slice, and the columns listed for
  a table are columns of that slice table.
\<close>

definition within_bounds :: "reasoner_output \<Rightarrow> schema_slice \<Rightarrow> bool" where
  "within_bounds result slice \<longleftrightarrow>
     (\<forall>t \<in> set (case relevant_tables result of None \<Rightarrow> [] | Some ts \<Rightarrow> ts).
        t \<in> fst ` set (slice_tables slice))
     \<and> (\<forall>(t, payload) \<in> set (case schema_context result of None \<Rightarrow> [] | Some items \<Rightarrow> items).
        t \<in> fst ` set (slice_tables slice)
        \<and> (\<forall>c \<in> set (case payload of None \<Rightarrow> [] | Some cs \<Rightarrow> cs).
              c \<in> columns_of (slice_tables slice) t))"

section \<open>SQL generator (sql\_generator.py)\<close>

record PostgresConfig =
  sample_limit :: int
  max_limit :: int


subsection \<open>String operations\<close>




text \<open>Decimal digits, \<^verbatim>\<open>int(digits)\<close> for a string of digits, and \<^verbatim>\<open>str(n)\<close>.\<close>

definition is_digit :: "char \<Rightarrow> bool" where
  "is_digit c = (c \<in> set ''0123456789'')"

definition digit_value :: "char \<Rightarrow> nat" where
  "digit_value c =
     (case map_of (zip ''0123456789'' [0, 1, 2, 3, 4, 5, 6, 7, 8, 9]) c of
        None \<Rightarrow> 0
      | Some d \<Rightarrow> d)"

definition int_of_digits :: "string \<Rightarrow> nat" where
  "int_of_digits ds = foldl (\<lambda>n c. 10 * n + digit_value c) 0 ds"

fun str_nat :: "nat \<Rightarrow> string" where
  "str_nat n =
     (if n < 10 then [''0123456789'' ! n]
      else str_nat (n div 10) @ [''0123456789'' ! (n mod 10)])"

definition str_int :: "int \<Rightarrow> string" where
  "str_int i = (if i < 0 then CHR ''-'' # str_nat (nat (- i)) else str_nat (nat i))"

subsection \<open>The two regular expressions\<close>





subsection \<open>The generator\<close>











declare str_nat.simps [simp del]

subsection \<open>The patterns as the specification reads them\<close>






section \<open>SQL validator (sql\_validator.py)\<close>

text \<open>
  The syntax tree that \<^verbatim>\<open>sqlglot.parse_one\<close> returns, as far as the validator looks at it:
  \<^item> \<open>Literal this is_string\<close>, a literal with its text; it is a number when it is not a
    string;
  \<^item> \<open>Func name args\<close>, a node of a class derived from \<^verbatim>\<open>exp.Func\<close>, with its \<^verbatim>\<open>.name\<close>;
  \<^item> \<open>Node cls children\<close>, a node of any other class;
  \<^item> \<open>Select expressions from others limit\<close>, a SELECT with its projections, its
    \<open>from\<close> argument, its remaining arguments and its \<open>limit\<close> argument. A \<open>Limit\<close> node
    has two arguments that the validator touches, \<open>this\<close> and \<open>expression\<close>; it is the
    pair of the two.
\<close>

datatype expr =
    Literal string bool
  | Func string "expr list"
  | Node string "expr list"
  | Select "expr list" "expr option" "expr list" "(expr option \<times> expr option) option"

text \<open>
  \<^verbatim>\<open>int(text)\<close>: surrounding whitespace is dropped, a sign may lead, and the digits may be
  grouped by single underscores. \<open>None\<close> is \<^verbatim>\<open>ValueError\<close>.
\<close>

definition py_int :: "string \<Rightarrow> int option" where
  "py_int s =
     (let t = strip s;
          negative = (t \<noteq> [] \<and> hd t = CHR ''-'');
          body = (if t \<noteq> [] \<and> (hd t = CHR ''-'' \<or> hd t = CHR ''+'') then tl t else t);
          groups = split_on (CHR ''_'') body
      in if list_all (\<lambda>g. g \<noteq> [] \<and> list_all is_digit g) groups
         then Some ((if negative then - 1 else 1) * int (int_of_digits (concat groups)))
         else None)"

text \<open>\<^verbatim>\<open>exp.Literal.number(n)\<close>\<close>

definition literal_number :: "int \<Rightarrow> expr" where
  "literal_number n = Literal (str_int n) False"


text \<open>
  \<open>_enforce_limit\<close>, on the \<open>limit\<close> argument of the SELECT, which it may replace or
  change in place; the result is the argument afterwards. Without a limit, a new \<open>Limit\<close>
  is set whose \<open>this\<close> is the literal \<open>max_limit\<close>. With one, \<open>value = limit.this\<close> must be
  a number literal; when \<^verbatim>\<open>int(value.this)\<close> exceeds \<open>max_limit\<close>, the \<open>expression\<close>
  argument of the limit is set to the literal \<open>max_limit\<close>.
\<close>

fun enforce_limit ::
  "PostgresConfig \<Rightarrow> (expr option \<times> expr option) option \<Rightarrow>
   py_error + (expr option \<times> expr option) option" where
  "enforce_limit cfg None = Inr (Some (Some (literal_number (max_limit cfg)), None))"
| "enforce_limit cfg (Some (Some (Literal text False), expression)) =
     (case py_int text of
        None \<Rightarrow> Inl (IntValueError text)
      | Some n \<Rightarrow>
          if n > max_limit cfg
          then Inr (Some (Some (Literal text False), Some (literal_number (max_limit cfg))))
          else Inr (Some (Some (Literal text False), expression)))"
| "enforce_limit cfg (Some (_, expression)) = Inl NonLiteralLimit"


text \<open>
  \<open>_enforce_disallowed_functions\<close>: both the configured names and the node's name are
  lower-cased before they are compared.
\<close>

definition is_disallowed :: "SQLGuardrailConfig \<Rightarrow> expr \<Rightarrow> bool" where
  "is_disallowed cfg node =
     (case node of
        Func name args \<Rightarrow> lower name \<in> set (map lower (disallowed_functions cfg))
      | _ \<Rightarrow> False)"






section \<open>Audit log and pipeline (audit.py, pipeline.py)\<close>






















section \<open>Schema snapshot under concurrent requests (schema\_extractor.py, pipeline.py)\<close>

text \<open>
  Requests run as coroutines of one event loop: a coroutine runs without interruption
  from one suspension point to the next, and a lock is taken only when it is free. The
  model is the interleaving of these atomic pieces under an arbitrary schedule.

  A snapshot is identified by the number of the \<open>_collect\<close> call that built it (each call
  builds a new dict); 0 stands for the empty dict that \<open>self._snapshot\<close> is initialised
  with, which is the only snapshot that is falsy.
\<close>

type_synonym snapshot_id = nat

text \<open>
  Where a call of \<open>QueryPipeline._get_schema_snapshot\<close> stands:
  \<^item> \<open>Start\<close>: not begun;
  \<^item> \<open>CacheLookup\<close>: awaiting \<open>cache.get_json\<close> (only without \<open>refresh\<close>);
  \<^item> \<open>WaitSchemaLock\<close>: at \<^verbatim>\<open>async with self._schema_lock\<close>;
  \<^item> \<open>WaitExtractorLock\<close>: holding the schema lock, inside the extractor after its first
    test, at \<^verbatim>\<open>async with self._lock\<close>;
  \<^item> \<open>Collecting k\<close>: holding both locks, awaiting \<open>_collect\<close>, the \<open>k\<close>-th call of it;
  \<^item> \<open>CacheStore s\<close>: the extractor has returned \<open>s\<close> and its lock is released; awaiting
    \<open>cache.set_json\<close>, still holding the schema lock;
  \<^item> \<open>Returned s\<close>: the call has returned \<open>s\<close>.
\<close>

datatype task_pc =
    Start
  | CacheLookup
  | WaitSchemaLock
  | WaitExtractorLock
  | Collecting snapshot_id
  | CacheStore snapshot_id
  | Returned snapshot_id

record process_state =
  schema_lock :: bool
  extractor_lock :: bool
  extractor_snapshot :: snapshot_id
  extractor_timestamp :: "rat option"
  cache_value :: "snapshot_id option"
  collect_calls :: nat
  wall_clock :: rat
  tasks :: "(bool \<times> task_pc) list"

text \<open>\<open>SchemaExtractor._is_stale\<close>\<close>

definition is_stale :: "SchemaConfig \<Rightarrow> process_state \<Rightarrow> bool" where
  "is_stale cfg s =
     (case extractor_timestamp s of
        None \<Rightarrow> True
      | Some t \<Rightarrow>
          extractor_snapshot s = 0 \<or> wall_clock s - t > of_int (refresh_interval_s cfg))"

text \<open>
  One atomic piece of task \<open>i\<close>, whose \<open>refresh\<close> flag is the first component of its entry.
  A task that waits for a lock that is taken, and a task that has returned, do nothing.
\<close>

definition set_pc :: "nat \<Rightarrow> task_pc \<Rightarrow> process_state \<Rightarrow> process_state" where
  "set_pc i pc s = s\<lparr>tasks := (tasks s)[i := (fst (tasks s ! i), pc)]\<rparr>"

definition step_task :: "SchemaConfig \<Rightarrow> nat \<Rightarrow> process_state \<Rightarrow> process_state" where
  "step_task cfg i s =
     (if i \<ge> length (tasks s) then s
      else
        let refresh = fst (tasks s ! i)
        in case snd (tasks s ! i) of
             Start \<Rightarrow> set_pc i (if refresh then WaitSchemaLock else CacheLookup) s
           | CacheLookup \<Rightarrow>
               (case cache_value s of
                  None \<Rightarrow> set_pc i WaitSchemaLock s
                | Some cached \<Rightarrow>
                    if cached \<noteq> 0 then set_pc i (Returned cached) s
                    else set_pc i WaitSchemaLock s)
           | WaitSchemaLock \<Rightarrow>
               if schema_lock s then s
               else if refresh \<or> is_stale cfg s
                 then set_pc i WaitExtractorLock (s\<lparr>schema_lock := True\<rparr>)
                 else set_pc i (CacheStore (extractor_snapshot s)) (s\<lparr>schema_lock := True\<rparr>)
           | WaitExtractorLock \<Rightarrow>
               if extractor_lock s then s
               else if refresh \<or> is_stale cfg s
                 then set_pc i (Collecting (collect_calls s + 1))
                        (s\<lparr>extractor_lock := True, collect_calls := collect_calls s + 1\<rparr>)
                 else set_pc i (CacheStore (extractor_snapshot s)) s
           | Collecting k \<Rightarrow>
               set_pc i (CacheStore k)
                 (s\<lparr>extractor_snapshot := k, extractor_timestamp := Some (wall_clock s),
                    extractor_lock := False\<rparr>)
           | CacheStore snap \<Rightarrow>
               set_pc i (Returned snap) (s\<lparr>cache_value := Some snap, schema_lock := False\<rparr>)
           | Returned snap \<Rightarrow> s)"

text \<open>A schedule: which task runs its next piece, or how much time passes.\<close>

datatype event = Run nat | Tick rat

fun step_event :: "SchemaConfig \<Rightarrow> process_state \<Rightarrow> event \<Rightarrow> process_state" where
  "step_event cfg s (Run i) = step_task cfg i s"
| "step_event cfg s (Tick d) = s\<lparr>wall_clock := wall_clock s + (if d < 0 then 0 else d)\<rparr>"

definition run_schedule :: "SchemaConfig \<Rightarrow> event list \<Rightarrow> process_state \<Rightarrow> process_state" where
  "run_schedule cfg events s = foldl (step_event cfg) s events"

text \<open>
  A process in which \<open>n\<close> requests, all with \<open>refresh = True\<close>, are about to call
  \<open>_get_schema_snapshot\<close>: no lock is held and \<open>_collect\<close> has not run.
\<close>

definition forced_refresh_start :: "nat \<Rightarrow> process_state" where
  "forced_refresh_start n =
     \<lparr> schema_lock = False, extractor_lock = False, extractor_snapshot = 0,
       extractor_timestamp = None, cache_value = None, collect_calls = 0, wall_clock = 0,
       tasks = replicate n (True, Start) \<rparr>"

text \<open>Tasks that have begun their \<open>_collect\<close>, and the snapshot a task carries.\<close>

fun has_collected :: "bool \<times> task_pc \<Rightarrow> bool" where
  "has_collected (r, Collecting k) = True"
| "has_collected (r, CacheStore k) = True"
| "has_collected (r, Returned k) = True"
| "has_collected (r, pc) = False"

fun carried :: "bool \<times> task_pc \<Rightarrow> snapshot_id option" where
  "carried (r, Collecting k) = Some k"
| "carried (r, CacheStore k) = Some k"
| "carried (r, Returned k) = Some k"
| "carried (r, pc) = None"

fun is_collecting :: "bool \<times> task_pc \<Rightarrow> bool" where
  "is_collecting (r, Collecting k) = True"
| "is_collecting (r, pc) = False"

fun in_schema_lock :: "bool \<times> task_pc \<Rightarrow> bool" where
  "in_schema_lock (r, WaitExtractorLock) = True"
| "in_schema_lock (r, Collecting k) = True"
| "in_schema_lock (r, CacheStore k) = True"
| "in_schema_lock (r, pc) = False"

text \<open>
  What holds of every state that forced-refresh requests can reach, \<open>c0\<close> being the
  number of \<open>_collect\<close> calls before them: each lock is held exactly when one task is
  inside it, every task that got past the extractor's lock has begun one \<open>_collect\<close> of
  its own, and the snapshots that different tasks carry are different.
\<close>

definition forced_refresh_invariant :: "nat \<Rightarrow> process_state \<Rightarrow> bool" where
  "forced_refresh_invariant c0 s \<longleftrightarrow>
     (\<forall>t \<in> set (tasks s). fst t \<and> snd t \<noteq> CacheLookup)
     \<and> length (filter in_schema_lock (tasks s)) = (if schema_lock s then 1 else 0)
     \<and> length (filter is_collecting (tasks s)) = (if extractor_lock s then 1 else 0)
     \<and> collect_calls s = c0 + length (filter has_collected (tasks s))
     \<and> (\<forall>i < length (tasks s). \<forall>k. carried (tasks s ! i) = Some k \<longrightarrow>
           c0 < k \<and> k \<le> collect_calls s)
     \<and> (\<forall>i < length (tasks s). \<forall>j < length (tasks s). \<forall>k.
           i \<noteq> j \<and> carried (tasks s ! i) = Some k \<longrightarrow> carried (tasks s ! j) \<noteq> Some k)"

section \<open>Guardrail engine: properties\<close>





text \<open>
  A rejection always rests on a metric that the plan really carries: with thresholds of
  at least 1 (the configuration's lower bound), a verdict \<open>False\<close> needs a \<open>Plan\<close> object
  holding \<open>Plan Rows\<close> or \<open>Total Cost\<close>.
\<close>

lemma guardrail_rejection_needs_metric:
  assumes "1 \<le> row_threshold cfg" and "1 \<le> cost_threshold cfg"
    and "guardrail_check cfg (Inr plan) ts = Inr (False, m)"
  shows "\<exists>kvs r. plan = JObj kvs \<and> map_of kvs ''Plan'' = Some (JObj r)
           \<and> (map_of r ''Plan Rows'' \<noteq> None \<or> map_of r ''Total Cost'' \<noteq> None)"
  using assms
  by (auto simp: guardrail_check_def extract_metrics_def dict_get_def apply_rules_def lower_def
      split: json.splits option.splits if_splits)

text \<open>
  C10. If the decoded EXPLAIN output has no \<open>Plan\<close> entry, the metrics are the defaults
  \<open>0\<close>, \<open>0\<close>, \<open>0.0\<close> and the empty string, and \<open>guardrail_check\<close> allows the query. If the
  \<open>Plan\<close> object lacks \<open>Plan Rows\<close>, \<open>Total Cost\<close> or \<open>Node Type\<close>, the missing metric is
  its default, and when all three are missing the query is allowed. The thresholds are
  at least 1, the lower bound that \<open>SQLGuardrailConfig\<close> enforces.
\<close>

theorem guardrail_defaults_allow:
  assumes "1 \<le> row_threshold cfg" and "1 \<le> cost_threshold cfg"
  shows "(map_of kvs ''Plan'' = None \<longrightarrow>
            guardrail_check cfg (Inr (JObj kvs)) ts =
              Inr (True, \<lparr>plan_rows = JInt 0, plan_width = JInt 0,
                           total_cost = JFloat 0, node_type = JStr ''''\<rparr>))
       \<and> (map_of kvs ''Plan'' = Some (JObj r) \<longrightarrow>
            (\<exists>m. extract_metrics (JObj kvs) = Inr m
               \<and> (map_of r ''Plan Rows'' = None \<longrightarrow> plan_rows m = JInt 0)
               \<and> (map_of r ''Total Cost'' = None \<longrightarrow> total_cost m = JFloat 0)
               \<and> (map_of r ''Node Type'' = None \<longrightarrow> node_type m = JStr '''')
               \<and> (map_of r ''Plan Rows'' = None \<and> map_of r ''Total Cost'' = None
                    \<and> map_of r ''Node Type'' = None \<longrightarrow>
                    guardrail_check cfg (Inr (JObj kvs)) ts = Inr (True, m))))"
  using assms
  by (auto simp: guardrail_check_def extract_metrics_def dict_get_def apply_rules_def lower_def)

theorem guardrail_defaults_allow_witness:
  "guardrail_check \<lparr>row_threshold = 500000, cost_threshold = 100000, disallowed_functions = []\<rparr>
       (Inr (JObj [])) ()
     = Inr (True, \<lparr>plan_rows = JInt 0, plan_width = JInt 0, total_cost = JFloat 0,
                   node_type = JStr ''''\<rparr>)
   \<and> guardrail_check \<lparr>row_threshold = 500000, cost_threshold = 100000, disallowed_functions = []\<rparr>
       (Inr (JObj [(''Plan'', JObj [(''Plan Width'', JInt 8)])])) ()
     = Inr (True, \<lparr>plan_rows = JInt 0, plan_width = JInt 8, total_cost = JFloat 0,
                   node_type = JStr ''''\<rparr>)"
proof -
  let ?cfg = "\<lparr>row_threshold = 500000, cost_threshold = 100000, disallowed_functions = []\<rparr>"
  let ?r = "[(''Plan Width'', JInt 8)]"
  have c1: "1 \<le> row_threshold ?cfg" and c2: "1 \<le> cost_threshold ?cfg"
    by simp_all
  have none: "map_of ([] :: (string \<times> json) list) ''Plan'' = None"
    by simp
  have some: "map_of [(''Plan'', JObj ?r)] ''Plan'' = Some (JObj ?r)"
    by simp
  have missing: "map_of ?r ''Plan Rows'' = None \<and> map_of ?r ''Total Cost'' = None
      \<and> map_of ?r ''Node Type'' = None"
    by simp
  have m: "extract_metrics (JObj [(''Plan'', JObj ?r)])
      = Inr \<lparr>plan_rows = JInt 0, plan_width = JInt 8, total_cost = JFloat 0, node_type = JStr ''''\<rparr>"
    by (simp add: extract_metrics_def dict_get_def)
  from guardrail_defaults_allow [OF c1 c2, of "[]" "()" "[]"] none
  have first: "guardrail_check ?cfg (Inr (JObj [])) ()
      = Inr (True, \<lparr>plan_rows = JInt 0, plan_width = JInt 0, total_cost = JFloat 0,
                    node_type = JStr ''''\<rparr>)"
    by blast
  from guardrail_defaults_allow [OF c1 c2, of "[(''Plan'', JObj ?r)]" "()" ?r] some missing m
  have second: "guardrail_check ?cfg (Inr (JObj [(''Plan'', JObj ?r)])) ()
      = Inr (True, \<lparr>plan_rows = JInt 0, plan_width = JInt 8, total_cost = JFloat 0,
                    node_type = JStr ''''\<rparr>)"
    by auto
  from first second show ?thesis by simp
qed

section \<open>Rate limiter: properties\<close>

text \<open>
  On a deque in arrival order the eviction loop removes exactly the timestamps that are
  older than the window; on any deque it removes a prefix.
\<close>

lemma evict_sorted: "sorted queue \<Longrightarrow> evict ws queue = filter (\<lambda>t. ws \<le> t) queue"
proof (induction queue)
  case Nil
  then show ?case by simp
next
  case (Cons t queue)
  show ?case
  proof (cases "t < ws")
    case True
    with Cons show ?thesis by simp
  next
    case False
    with Cons.prems have "\<forall>u \<in> set queue. ws \<le> u"
      by auto
    then have "filter (\<lambda>t. ws \<le> t) queue = queue"
      by (simp add: filter_id_conv)
    with False show ?thesis by simp
  qed
qed





lemma allow_keeps_sorted:
  assumes "sorted (requests key)" and "\<forall>t \<in> set (requests key). t \<le> now"
  shows "sorted (snd (allow cfg now key requests) key)"
  using assms by (auto simp: allow_def Let_def evict_sorted sorted_append sorted_wrt_filter)

lemma allow_other_key:
  "key' \<noteq> key \<Longrightarrow> snd (allow cfg now key requests) key' = requests key'"
  by (simp add: allow_def Let_def)






section \<open>Schema slicer: properties\<close>

lemma counted_bytes_append:
  "counted_bytes dumps tbls (xs @ ys) = counted_bytes dumps tbls xs + counted_bytes dumps tbls ys"
  by (induction xs) (auto split: option.splits)

lemma slice_bytes_update:
  "slice_bytes dumps (AList.update k v slice) \<le> slice_bytes dumps slice + length (dumps v)"
  by (induction slice) (auto simp: slice_bytes_def)

lemma select_tables_bytes_aux:
  assumes "slice_bytes dumps slice \<le> tot" and "int tot \<le> budget"
  shows "int (slice_bytes dumps (fst (select_tables dumps tbls budget ids slice tot))) \<le> budget"
  using assms
proof (induction ids arbitrary: slice tot)
  case Nil
  then show ?case by simp
next
  case (Cons table_id ids)
  show ?case
  proof (cases "map_of tbls table_id")
    case None
    with Cons show ?thesis by simp
  next
    case (Some meta)
    show ?thesis
    proof (cases "truthy meta \<and> int (tot + length (dumps meta)) \<le> budget")
      case True
      have "slice_bytes dumps (AList.update table_id meta slice) \<le> tot + length (dumps meta)"
        using slice_bytes_update [of dumps table_id meta slice] Cons.prems(1) by linarith
      with True Some Cons.IH [of "AList.update table_id meta slice" "tot + length (dumps meta)"]
      show ?thesis by (simp add: Let_def)
    next
      case False
      with Some Cons show ?thesis by (auto simp: Let_def)
    qed
  qed
qed

lemma included_Cons:
  "(\<exists>pre post meta. x # xs = pre @ t # post \<and> map_of tbls t = Some meta \<and> truthy meta
        \<and> int (tot + counted_bytes dumps tbls (pre @ [t])) \<le> budget) \<longleftrightarrow>
   (t = x \<and> (\<exists>meta. map_of tbls t = Some meta \<and> truthy meta
        \<and> int (tot + length (dumps meta)) \<le> budget))
   \<or> (\<exists>pre post meta. xs = pre @ t # post \<and> map_of tbls t = Some meta \<and> truthy meta
        \<and> int (tot + counted_bytes dumps tbls [x] + counted_bytes dumps tbls (pre @ [t])) \<le> budget)"
  (is "?L \<longleftrightarrow> ?A \<or> ?B")
proof
  assume ?L
  then obtain pre post meta where split: "x # xs = pre @ t # post"
    and meta: "map_of tbls t = Some meta" "truthy meta"
    and bound: "int (tot + counted_bytes dumps tbls (pre @ [t])) \<le> budget"
    by blast
  show "?A \<or> ?B"
  proof (cases pre)
    case Nil
    with split meta bound have ?A by simp
    then show ?thesis ..
  next
    case (Cons y pre')
    with split have "y = x" and "xs = pre' @ t # post" by simp_all
    moreover from bound Cons \<open>y = x\<close>
    have "int (tot + counted_bytes dumps tbls [x] + counted_bytes dumps tbls (pre' @ [t])) \<le> budget"
      using counted_bytes_append [of dumps tbls "[x]" "pre' @ [t]"] by simp
    ultimately have ?B using meta by blast
    then show ?thesis ..
  qed
next
  assume "?A \<or> ?B"
  then show ?L
  proof
    assume ?A
    then obtain meta where "t = x" "map_of tbls t = Some meta" "truthy meta"
      "int (tot + length (dumps meta)) \<le> budget"
      by blast
    then have "x # xs = [] @ t # xs \<and> map_of tbls t = Some meta \<and> truthy meta
        \<and> int (tot + counted_bytes dumps tbls ([] @ [t])) \<le> budget"
      by simp
    then show ?L by blast
  next
    assume ?B
    then obtain pre post meta where "xs = pre @ t # post" "map_of tbls t = Some meta" "truthy meta"
      "int (tot + counted_bytes dumps tbls [x] + counted_bytes dumps tbls (pre @ [t])) \<le> budget"
      by blast
    then have "x # xs = (x # pre) @ t # post \<and> map_of tbls t = Some meta \<and> truthy meta
        \<and> int (tot + counted_bytes dumps tbls ((x # pre) @ [t])) \<le> budget"
      using counted_bytes_append [of dumps tbls "[x]" "pre @ [t]"] by simp
    then show ?L by blast
  qed
qed

lemma select_tables_keys_aux:
  "t \<in> fst ` set (fst (select_tables dumps tbls budget ids slice tot)) \<longleftrightarrow>
     t \<in> fst ` set slice \<or>
     (\<exists>pre post meta. ids = pre @ t # post \<and> map_of tbls t = Some meta \<and> truthy meta
        \<and> int (tot + counted_bytes dumps tbls (pre @ [t])) \<le> budget)"
proof (induction ids arbitrary: slice tot)
  case Nil
  then show ?case by simp
next
  case (Cons table_id ids)
  note split = included_Cons [of table_id ids t tbls tot dumps budget]
  show ?case
  proof (cases "map_of tbls table_id")
    case None
    then show ?thesis
      unfolding split by (auto simp: Cons.IH)
  next
    case (Some meta)
    show ?thesis
    proof (cases "truthy meta")
      case False
      with Some show ?thesis
        unfolding split by (auto simp: Cons.IH)
    next
      case True
      show ?thesis
      proof (cases "int (tot + length (dumps meta)) > budget")
        case over: True
        have "\<not> (\<exists>pre post meta'. ids = pre @ t # post \<and> map_of tbls t = Some meta' \<and> truthy meta'
          \<and> int (tot + counted_bytes dumps tbls [table_id] + counted_bytes dumps tbls (pre @ [t])) \<le> budget)"
          using over Some True by auto
        with over Some True show ?thesis
          unfolding split by (auto simp: Let_def)
      next
        case False
        with Some True show ?thesis
          unfolding split by (auto simp: Let_def Cons.IH dom_update)
      qed
    qed
  qed
qed

lemma set_alist_update:
  "p \<in> set (AList.update k v al) \<Longrightarrow> p = (k, v) \<or> p \<in> set al"
  by (induction al) (auto split: if_splits)

lemma select_tables_from_snapshot_aux:
  assumes "\<forall>(k, v) \<in> set slice. map_of tbls k = Some v"
    and "(k, v) \<in> set (fst (select_tables dumps tbls budget ids slice tot))"
  shows "map_of tbls k = Some v"
  using assms
proof (induction ids arbitrary: slice tot)
  case Nil
  then show ?case by auto
next
  case (Cons table_id ids)
  show ?case
  proof (cases "map_of tbls table_id")
    case None
    with Cons show ?thesis by simp
  next
    case (Some meta)
    have upd: "\<forall>(k, v) \<in> set (AList.update table_id meta slice). map_of tbls k = Some v"
      using Cons.prems(1) Some by (auto dest: set_alist_update)
    show ?thesis
    proof (cases "truthy meta \<and> int (tot + length (dumps meta)) \<le> budget")
      case True
      with Some Cons.prems(2) Cons.IH [OF upd] show ?thesis
        by (simp add: Let_def)
    next
      case False
      with Some Cons.prems Cons.IH [of slice] show ?thesis
        by (auto simp: Let_def split: if_splits)
    qed
  qed
qed

lemma select_tables_stops:
  assumes "map_of tbls x = Some meta" and "truthy meta"
    and "int (tot + counted_bytes dumps tbls (pre @ [x])) > budget"
  shows "fst (select_tables dumps tbls budget (pre @ x # post) slice tot)
       = fst (select_tables dumps tbls budget pre slice tot)"
  using assms(3)
proof (induction pre arbitrary: slice tot)
  case Nil
  with assms(1,2) show ?case by (simp add: Let_def)
next
  case (Cons y pre)
  show ?case
  proof (cases "map_of tbls y")
    case None
    with Cons show ?thesis by simp
  next
    case (Some m)
    show ?thesis
    proof (cases "truthy m")
      case False
      with Some Cons show ?thesis by simp
    next
      case True
      show ?thesis
      proof (cases "int (tot + length (dumps m)) > budget")
        case over: True
        with Some True show ?thesis by (simp add: Let_def)
      next
        case False
        from Cons.prems Some True
        have "budget < int (tot + length (dumps m) + counted_bytes dumps tbls (pre @ [x]))"
          by (simp add: add.assoc)
        from Cons.IH [OF this] False Some True show ?thesis
          by (simp add: Let_def)
      qed
    qed
  qed
qed

text \<open>
  C6. \<open>select_schema_slice\<close> walks the ranked ids in order. A table is in the slice exactly
  when some occurrence of its id in the sequence names non-empty metadata and the bytes
  counted up to and including that occurrence are within \<open>max_schema_slice_bytes\<close>; the
  slice tables carry the snapshot's metadata; once an id takes the count over the budget
  the ids after it add nothing; and the serialized lengths of the slice tables sum to at
  most \<open>max_schema_slice_bytes\<close> (a budget that is not negative; \<open>SchemaConfig\<close> enforces
  at least 1024).
\<close>

theorem select_schema_slice_budget:
  assumes "0 \<le> max_schema_slice_bytes cfg"
  shows "(\<forall>t. t \<in> fst ` set (slice_tables (select_schema_slice dumps snap ids cfg)) \<longleftrightarrow>
            (\<exists>pre post meta. ids = pre @ t # post \<and> map_of (tables snap) t = Some meta
               \<and> truthy meta
               \<and> int (counted_bytes dumps (tables snap) (pre @ [t])) \<le> max_schema_slice_bytes cfg))
       \<and> (\<forall>(t, meta) \<in> set (slice_tables (select_schema_slice dumps snap ids cfg)).
            map_of (tables snap) t = Some meta)
       \<and> (\<forall>pre x post meta. ids = pre @ x # post \<and> map_of (tables snap) x = Some meta
            \<and> truthy meta
            \<and> int (counted_bytes dumps (tables snap) (pre @ [x])) > max_schema_slice_bytes cfg \<longrightarrow>
            slice_tables (select_schema_slice dumps snap ids cfg)
              = slice_tables (select_schema_slice dumps snap pre cfg))
       \<and> int (slice_bytes dumps (slice_tables (select_schema_slice dumps snap ids cfg)))
            \<le> max_schema_slice_bytes cfg"
proof (intro conjI allI impI)
  fix t
  show "t \<in> fst ` set (slice_tables (select_schema_slice dumps snap ids cfg)) \<longleftrightarrow>
            (\<exists>pre post meta. ids = pre @ t # post \<and> map_of (tables snap) t = Some meta
               \<and> truthy meta
               \<and> int (counted_bytes dumps (tables snap) (pre @ [t])) \<le> max_schema_slice_bytes cfg)"
    using select_tables_keys_aux
      [of t dumps "tables snap" "max_schema_slice_bytes cfg" ids "[]" 0]
    by (simp add: select_schema_slice_def case_prod_beta)
next
  show "\<forall>(t, meta) \<in> set (slice_tables (select_schema_slice dumps snap ids cfg)).
            map_of (tables snap) t = Some meta"
    using select_tables_from_snapshot_aux
      [of "[]" "tables snap" _ _ dumps "max_schema_slice_bytes cfg" ids 0]
    by (auto simp: select_schema_slice_def case_prod_beta)
next
  fix pre x post meta
  assume "ids = pre @ x # post \<and> map_of (tables snap) x = Some meta \<and> truthy meta
            \<and> int (counted_bytes dumps (tables snap) (pre @ [x])) > max_schema_slice_bytes cfg"
  then show "slice_tables (select_schema_slice dumps snap ids cfg)
              = slice_tables (select_schema_slice dumps snap pre cfg)"
    using select_tables_stops
      [of "tables snap" x meta "max_schema_slice_bytes cfg" 0 dumps pre post "[]"]
    by (simp add: select_schema_slice_def case_prod_beta)
next
  show "int (slice_bytes dumps (slice_tables (select_schema_slice dumps snap ids cfg)))
            \<le> max_schema_slice_bytes cfg"
    using assms select_tables_bytes_aux
      [of dumps "[]" 0 "max_schema_slice_bytes cfg" "tables snap" ids]
    by (simp add: select_schema_slice_def case_prod_beta slice_bytes_def)
qed

theorem select_schema_slice_budget_witness:
  "map fst (slice_tables (select_schema_slice (\<lambda>meta. replicate 90 (CHR ''x''))
       \<lparr>tables = [(''public.table0'', JObj [(''columns'', JObj [(''col'', JObj [])])]),
                  (''public.table1'', JObj [(''columns'', JObj [(''col'', JObj [])])]),
                  (''public.table2'', JObj [(''columns'', JObj [(''col'', JObj [])])])],
        foreign_keys = [], table_stats = []\<rparr>
       [''public.table0'', ''public.table1'', ''public.table2'']
       \<lparr>refresh_interval_s = 3600, max_schema_slice_bytes = 200, ranker_top_n = 8\<rparr>))
     = [''public.table0'', ''public.table1'']
   \<and> slice_tables (select_schema_slice (\<lambda>meta. replicate 90 (CHR ''x''))
       \<lparr>tables = [(''public.table0'', JObj [(''columns'', JObj [(''col'', JObj [])])]),
                  (''public.table1'', JObj [(''columns'', JObj [(''col'', JObj [])])]),
                  (''public.table2'', JObj [(''columns'', JObj [(''col'', JObj [])])])],
        foreign_keys = [], table_stats = []\<rparr>
       [''public.table0'', ''public.table1'', ''public.table2'']
       \<lparr>refresh_interval_s = 3600, max_schema_slice_bytes = 200, ranker_top_n = 8\<rparr>)
     = slice_tables (select_schema_slice (\<lambda>meta. replicate 90 (CHR ''x''))
       \<lparr>tables = [(''public.table0'', JObj [(''columns'', JObj [(''col'', JObj [])])]),
                  (''public.table1'', JObj [(''columns'', JObj [(''col'', JObj [])])]),
                  (''public.table2'', JObj [(''columns'', JObj [(''col'', JObj [])])])],
        foreign_keys = [], table_stats = []\<rparr>
       [''public.table0'', ''public.table1'']
       \<lparr>refresh_interval_s = 3600, max_schema_slice_bytes = 200, ranker_top_n = 8\<rparr>)
   \<and> int (slice_bytes (\<lambda>meta. replicate 90 (CHR ''x''))
       (slice_tables (select_schema_slice (\<lambda>meta. replicate 90 (CHR ''x''))
       \<lparr>tables = [(''public.table0'', JObj [(''columns'', JObj [(''col'', JObj [])])]),
                  (''public.table1'', JObj [(''columns'', JObj [(''col'', JObj [])])]),
                  (''public.table2'', JObj [(''columns'', JObj [(''col'', JObj [])])])],
        foreign_keys = [], table_stats = []\<rparr>
       [''public.table0'', ''public.table1'', ''public.table2'']
       \<lparr>refresh_interval_s = 3600, max_schema_slice_bytes = 200, ranker_top_n = 8\<rparr>))) \<le> 200"
proof -
  let ?dumps = "\<lambda>meta :: json. replicate 90 (CHR ''x'')"
  let ?snap = "\<lparr>tables = [(''public.table0'', JObj [(''columns'', JObj [(''col'', JObj [])])]),
                  (''public.table1'', JObj [(''columns'', JObj [(''col'', JObj [])])]),
                  (''public.table2'', JObj [(''columns'', JObj [(''col'', JObj [])])])],
        foreign_keys = [], table_stats = []\<rparr>"
  let ?ids = "[''public.table0'', ''public.table1'', ''public.table2'']"
  let ?cfg = "\<lparr>refresh_interval_s = 3600, max_schema_slice_bytes = 200, ranker_top_n = 8\<rparr>"
  have budget: "0 \<le> max_schema_slice_bytes ?cfg"
    by simp
  have "int (slice_bytes ?dumps (slice_tables (select_schema_slice ?dumps ?snap ?ids ?cfg)))
      \<le> max_schema_slice_bytes ?cfg"
    using select_schema_slice_budget [OF budget, of ?dumps ?snap ?ids] by blast
  moreover have "map fst (slice_tables (select_schema_slice ?dumps ?snap ?ids ?cfg))
      = [''public.table0'', ''public.table1'']"
    by (simp add: select_schema_slice_def)
  moreover have "slice_tables (select_schema_slice ?dumps ?snap ?ids ?cfg)
      = slice_tables (select_schema_slice ?dumps ?snap [''public.table0'', ''public.table1''] ?cfg)"
  proof -
    have over: "?ids = [''public.table0'', ''public.table1''] @ ''public.table2'' # []
        \<and> map_of (tables ?snap) ''public.table2'' = Some (JObj [(''columns'', JObj [(''col'', JObj [])])])
        \<and> truthy (JObj [(''columns'', JObj [(''col'', JObj [])])])
        \<and> int (counted_bytes ?dumps (tables ?snap)
              ([''public.table0'', ''public.table1''] @ [''public.table2'']))
            > max_schema_slice_bytes ?cfg"
      by simp
    from select_schema_slice_budget [OF budget, of ?dumps ?snap ?ids] over
    show ?thesis by blast
  qed
  ultimately show ?thesis by simp
qed

section \<open>Reasoner: properties\<close>

lemma check_relevant_tables_iff:
  "check_relevant_tables allowed ts = Inr () \<longleftrightarrow> set ts \<subseteq> set allowed"
  by (induction ts) auto

lemma check_relevant_tables_error:
  "check_relevant_tables allowed ts = Inl e \<Longrightarrow> \<exists>t \<in> set ts. t \<notin> set allowed \<and> e = UnknownTable t"
  by (induction ts) (auto split: if_splits)

lemma check_columns_iff:
  "check_columns t allowed cs = Inr () \<longleftrightarrow> set cs \<subseteq> set allowed"
  by (induction cs) auto

lemma check_columns_error:
  "check_columns t allowed cs = Inl e \<Longrightarrow> \<exists>c \<in> set cs. c \<notin> set allowed \<and> e = UnknownColumn t c"
  by (induction cs) (auto split: if_splits)

lemma map_of_keys: "map_of al k = Some v \<Longrightarrow> k \<in> fst ` set al"
  by (induction al) (auto split: if_splits)

lemma check_schema_context_sound:
  assumes "check_schema_context slice items = Inr ()" and "(t, payload) \<in> set items"
  shows "t \<in> fst ` set slice
       \<and> (\<forall>c \<in> set (case payload of None \<Rightarrow> [] | Some cs \<Rightarrow> cs). c \<in> columns_of slice t)"
  using assms
proof (induction items)
  case Nil
  then show ?case by simp
next
  case (Cons item items)
  obtain t' payload' where item: "item = (t', payload')"
    by (cases item)
  from Cons.prems(1) obtain meta allowed where meta: "map_of slice t' = Some meta"
    and allowed: "allowed_columns meta = Inr allowed"
    and cols: "check_columns t' allowed (case payload' of None \<Rightarrow> [] | Some cs \<Rightarrow> cs) = Inr ()"
    and rest: "check_schema_context slice items = Inr ()"
    unfolding item
    by (cases "map_of slice t'"; cases "allowed_columns (the (map_of slice t'))";
        cases "check_columns t' (projr (allowed_columns (the (map_of slice t'))))
                 (case payload' of None \<Rightarrow> [] | Some cs \<Rightarrow> cs)") auto
  show ?case
  proof (cases "(t, payload) = item")
    case True
    with item meta allowed cols show ?thesis
      by (auto simp: columns_of_def check_columns_iff dest: map_of_keys)
  next
    case False
    with Cons rest show ?thesis by auto
  qed
qed

lemma check_schema_context_complete:
  assumes "\<forall>(t, payload) \<in> set items. t \<in> fst ` set slice
       \<and> (\<forall>c \<in> set (case payload of None \<Rightarrow> [] | Some cs \<Rightarrow> cs). c \<in> columns_of slice t)"
    and "\<forall>(t, meta) \<in> set slice. \<exists>cols. allowed_columns meta = Inr cols"
  shows "check_schema_context slice items = Inr ()"
  using assms(1)
proof (induction items)
  case Nil
  then show ?case by simp
next
  case (Cons item items)
  obtain t payload where item: "item = (t, payload)"
    by (cases item)
  from Cons.prems item have "t \<in> fst ` set slice" by auto
  then obtain meta where meta: "map_of slice t = Some meta"
    by (metis domD dom_map_of_conv_image_fst)
  then have "(t, meta) \<in> set slice"
    by (rule map_of_SomeD)
  with assms(2) obtain cols where cols: "allowed_columns meta = Inr cols"
    by auto
  from Cons.prems item meta cols
  have "set (case payload of None \<Rightarrow> [] | Some cs \<Rightarrow> cs) \<subseteq> set cols"
    by (auto simp: columns_of_def)
  then have "check_columns t cols (case payload of None \<Rightarrow> [] | Some cs \<Rightarrow> cs) = Inr ()"
    by (simp add: check_columns_iff)
  moreover from Cons.prems have "check_schema_context slice items = Inr ()"
    by (intro Cons.IH) simp
  ultimately show ?case
    by (simp add: item meta cols)
qed

lemma check_schema_context_error:
  assumes "check_schema_context slice items = Inl e"
    and "\<forall>(t, meta) \<in> set slice. \<exists>cols. allowed_columns meta = Inr cols"
  shows "(\<exists>t. e = UnknownContextTable t) \<or> (\<exists>t c. e = UnknownColumn t c)"
  using assms(1)
proof (induction items)
  case Nil
  then show ?case by simp
next
  case (Cons item items)
  obtain t payload where item: "item = (t, payload)"
    by (cases item)
  show ?case
  proof (cases "map_of slice t")
    case None
    with Cons.prems item show ?thesis by auto
  next
    case (Some meta)
    then have "(t, meta) \<in> set slice"
      by (rule map_of_SomeD)
    with assms(2) obtain cols where cols: "allowed_columns meta = Inr cols"
      by auto
    show ?thesis
    proof (cases "check_columns t cols (case payload of None \<Rightarrow> [] | Some cs \<Rightarrow> cs)")
      case (Inl e')
      with Cons.prems item Some cols have "e = e'" by simp
      with Inl check_columns_error show ?thesis by blast
    next
      case (Inr u)
      with Cons item Some cols show ?thesis by simp
    qed
  qed
qed

lemma enforce_schema_bounds_sound:
  assumes "enforce_schema_bounds result slice = Inr ()"
  shows "within_bounds result slice"
proof -
  let ?ts = "case relevant_tables result of None \<Rightarrow> [] | Some ts \<Rightarrow> ts"
  let ?items = "case schema_context result of None \<Rightarrow> [] | Some items \<Rightarrow> items"
  from assms have rel: "check_relevant_tables (map fst (slice_tables slice)) ?ts = Inr ()"
    and ctx: "check_schema_context (slice_tables slice) ?items = Inr ()"
    unfolding enforce_schema_bounds_def
    by (cases "check_relevant_tables (map fst (slice_tables slice)) ?ts"; simp)+
  from rel have "\<forall>t \<in> set ?ts. t \<in> fst ` set (slice_tables slice)"
    by (auto simp: check_relevant_tables_iff)
  moreover from check_schema_context_sound [OF ctx]
  have "\<forall>(t, payload) \<in> set ?items. t \<in> fst ` set (slice_tables slice)
        \<and> (\<forall>c \<in> set (case payload of None \<Rightarrow> [] | Some cs \<Rightarrow> cs).
              c \<in> columns_of (slice_tables slice) t)"
    by blast
  ultimately show ?thesis
    unfolding within_bounds_def by blast
qed

lemma enforce_schema_bounds_error:
  assumes "enforce_schema_bounds result slice = Inl e"
    and "\<forall>(t, meta) \<in> set (slice_tables slice). \<exists>cols. allowed_columns meta = Inr cols"
  shows "(\<exists>t. e = UnknownTable t) \<or> (\<exists>t. e = UnknownContextTable t)
       \<or> (\<exists>t c. e = UnknownColumn t c)"
proof (cases "check_relevant_tables (map fst (slice_tables slice))
    (case relevant_tables result of None \<Rightarrow> [] | Some ts \<Rightarrow> ts)")
  case (Inl e')
  with assms(1) have "e = e'"
    by (simp add: enforce_schema_bounds_def)
  with Inl check_relevant_tables_error show ?thesis by blast
next
  case (Inr u)
  with assms(1) have "check_schema_context (slice_tables slice)
      (case schema_context result of None \<Rightarrow> [] | Some items \<Rightarrow> items) = Inl e"
    by (simp add: enforce_schema_bounds_def)
  from check_schema_context_error [OF this assms(2)] show ?thesis by blast
qed

lemma reason_schema_with_llm_cases:
  "reason_schema_with_llm validator (Inr result) slice =
     (if validator result \<noteq> [] then Inl (ReasonerInvalidSchema (validator result))
      else case enforce_schema_bounds result slice of Inl e \<Rightarrow> Inl e | Inr u \<Rightarrow> Inr result)"
  by (cases "enforce_schema_bounds result slice") (simp_all add: reason_schema_with_llm_def Let_def)

text \<open>
  C5. A reply that \<open>reason_schema_with_llm\<close> returns is the model's reply, has passed the
  structural validator and is within the bounds of the slice: every relevant table and
  every table of the schema context is a table of the slice, and every column listed for
  a table is a column of that slice table. A reply that is not within the bounds is
  never returned: the call raises. When the reply passes the structural validator and
  every slice table carries its \<open>columns\<close> dict, the exception raised is one of the three
  out-of-bounds errors.
\<close>

theorem reasoner_output_within_bounds:
  "(reason_schema_with_llm validator reply slice = Inr result \<longrightarrow>
      reply = Inr result \<and> validator result = [] \<and> within_bounds result slice)
   \<and> (reply = Inr result \<and> \<not> within_bounds result slice \<longrightarrow>
      (\<exists>e. reason_schema_with_llm validator reply slice = Inl e))
   \<and> (reply = Inr result \<and> \<not> within_bounds result slice \<and> validator result = []
      \<and> (\<forall>(t, meta) \<in> set (slice_tables slice). \<exists>cols. allowed_columns meta = Inr cols) \<longrightarrow>
      (\<exists>e. reason_schema_with_llm validator reply slice = Inl e
         \<and> ((\<exists>t. e = UnknownTable t) \<or> (\<exists>t. e = UnknownContextTable t)
            \<or> (\<exists>t c. e = UnknownColumn t c))))"
proof -
  have accepted: "reply = Inr r \<and> validator r = [] \<and> within_bounds r slice"
    if "reason_schema_with_llm validator reply slice = Inr r" for r
  proof -
    from that obtain r' where reply: "reply = Inr r'"
      by (cases reply) (simp_all add: reason_schema_with_llm_def)
    from that have valid: "validator r' = []" and
      rest: "(case enforce_schema_bounds r' slice of Inl e \<Rightarrow> Inl e | Inr u \<Rightarrow> Inr r') = Inr r"
      by (simp_all add: reply reason_schema_with_llm_cases split: if_splits)
    from rest have "enforce_schema_bounds r' slice = Inr ()" and "r' = r"
      by (cases "enforce_schema_bounds r' slice"; simp)+
    with reply valid enforce_schema_bounds_sound show ?thesis by blast
  qed
  have rejected: "\<exists>e. reason_schema_with_llm validator reply slice = Inl e"
    if "reply = Inr result" "\<not> within_bounds result slice"
  proof (cases "reason_schema_with_llm validator reply slice")
    case (Inl e)
    then show ?thesis by blast
  next
    case (Inr r)
    from accepted [OF this] that show ?thesis by simp
  qed
  have out_of_bounds: "\<exists>e. reason_schema_with_llm validator reply slice = Inl e
         \<and> ((\<exists>t. e = UnknownTable t) \<or> (\<exists>t. e = UnknownContextTable t)
            \<or> (\<exists>t c. e = UnknownColumn t c))"
    if "reply = Inr result" "\<not> within_bounds result slice" "validator result = []"
      "\<forall>(t, meta) \<in> set (slice_tables slice). \<exists>cols. allowed_columns meta = Inr cols"
  proof -
    from rejected [OF that(1,2)] obtain e
      where e: "reason_schema_with_llm validator reply slice = Inl e"
      by blast
    with that(1,3) have "enforce_schema_bounds result slice = Inl e"
      by (cases "enforce_schema_bounds result slice")
        (simp_all add: reason_schema_with_llm_cases)
    from enforce_schema_bounds_error [OF this that(4)] e show ?thesis by blast
  qed
  from accepted rejected out_of_bounds show ?thesis by blast
qed

theorem reasoner_output_within_bounds_witness:
  "reason_schema_with_llm (\<lambda>r. [])
      (Inr \<lparr>query_intent = Some ''open claims'', relevant_tables = Some [''public.claims''],
            schema_context = Some [(''public.claims'', Some [''claim_id'', ''status''])],
            foreign_keys_map = Some []\<rparr>)
      \<lparr>slice_tables = [(''public.claims'',
          JObj [(''columns'', JObj [(''claim_id'', JObj []), (''status'', JObj [])])])],
        slice_foreign_keys = []\<rparr>
     = Inr \<lparr>query_intent = Some ''open claims'', relevant_tables = Some [''public.claims''],
            schema_context = Some [(''public.claims'', Some [''claim_id'', ''status''])],
            foreign_keys_map = Some []\<rparr>
   \<and> within_bounds
      \<lparr>query_intent = Some ''open claims'', relevant_tables = Some [''public.claims''],
            schema_context = Some [(''public.claims'', Some [''claim_id'', ''status''])],
            foreign_keys_map = Some []\<rparr>
      \<lparr>slice_tables = [(''public.claims'',
          JObj [(''columns'', JObj [(''claim_id'', JObj []), (''status'', JObj [])])])],
        slice_foreign_keys = []\<rparr>
   \<and> (\<exists>e. reason_schema_with_llm (\<lambda>r. [])
      (Inr \<lparr>query_intent = Some ''open claims'', relevant_tables = Some [''public.claims''],
            schema_context = Some [(''public.claims'', Some [''claim_id'', ''owner''])],
            foreign_keys_map = Some []\<rparr>)
      \<lparr>slice_tables = [(''public.claims'',
          JObj [(''columns'', JObj [(''claim_id'', JObj []), (''status'', JObj [])])])],
        slice_foreign_keys = []\<rparr> = Inl e
      \<and> ((\<exists>t. e = UnknownTable t) \<or> (\<exists>t. e = UnknownContextTable t)
            \<or> (\<exists>t c. e = UnknownColumn t c)))"
proof -
  let ?slice = "\<lparr>slice_tables = [(''public.claims'',
          JObj [(''columns'', JObj [(''claim_id'', JObj []), (''status'', JObj [])])])],
        slice_foreign_keys = []\<rparr>"
  let ?good = "\<lparr>query_intent = Some ''open claims'', relevant_tables = Some [''public.claims''],
            schema_context = Some [(''public.claims'', Some [''claim_id'', ''status''])],
            foreign_keys_map = Some []\<rparr>"
  let ?bad = "\<lparr>query_intent = Some ''open claims'', relevant_tables = Some [''public.claims''],
            schema_context = Some [(''public.claims'', Some [''claim_id'', ''owner''])],
            foreign_keys_map = Some []\<rparr>"
  let ?validator = "\<lambda>r :: reasoner_output. [] :: string list"
  have run: "reason_schema_with_llm ?validator (Inr ?good) ?slice = Inr ?good"
    by (simp add: reason_schema_with_llm_def enforce_schema_bounds_def allowed_columns_def)
  with reasoner_output_within_bounds [of ?validator "Inr ?good" ?slice ?good]
  have good: "within_bounds ?good ?slice"
    by blast
  have "\<not> within_bounds ?bad ?slice"
    by (simp add: within_bounds_def columns_of_def allowed_columns_def)
  moreover have "\<forall>(t, meta) \<in> set (slice_tables ?slice). \<exists>cols. allowed_columns meta = Inr cols"
    by (simp add: allowed_columns_def)
  moreover have "?validator ?bad = []"
    by simp
  ultimately have bad: "\<exists>e. reason_schema_with_llm ?validator (Inr ?bad) ?slice = Inl e
      \<and> ((\<exists>t. e = UnknownTable t) \<or> (\<exists>t. e = UnknownContextTable t)
            \<or> (\<exists>t c. e = UnknownColumn t c))"
    using reasoner_output_within_bounds [of ?validator "Inr ?bad" ?slice ?bad] by blast
  from run good bad show ?thesis by blast
qed

section \<open>SQL generator: properties\<close>


















section \<open>SQL validator: properties\<close>

lemma is_disallowed_Func:
  "is_disallowed cfg n \<longleftrightarrow>
     (\<exists>name args. n = Func name args \<and> lower name \<in> set (map lower (disallowed_functions cfg)))"
  by (cases n) (auto simp: is_disallowed_def)



lemma not_disallowed_literal: "\<not> is_disallowed cfg (literal_number n)"
  by (simp add: is_disallowed_def literal_number_def)








text \<open>
  C2. The LIMIT step on the three shapes of the \<open>limit\<close> argument, with \<open>max_limit = 100\<close>.
  A limit whose \<open>this\<close> is the literal 1000 keeps that literal: the clamp writes \<open>100\<close> to
  the \<open>expression\<close> argument, not to the argument the value was read from. A limit that
  carries the literal 1000 in \<open>expression\<close> and nothing in \<open>this\<close> is rejected as not being
  a number literal. A missing limit becomes one with \<open>100\<close> in \<open>this\<close> and no \<open>expression\<close>.
\<close>

theorem enforce_limit_clamp_slots:
  "enforce_limit \<lparr>sample_limit = 50, max_limit = 100\<rparr> (Some (Some (Literal ''1000'' False), None))
     = Inr (Some (Some (Literal ''1000'' False), Some (Literal ''100'' False)))
   \<and> enforce_limit \<lparr>sample_limit = 50, max_limit = 100\<rparr> (Some (None, Some (Literal ''1000'' False)))
     = Inl NonLiteralLimit
   \<and> enforce_limit \<lparr>sample_limit = 50, max_limit = 100\<rparr> None
     = Inr (Some (Some (Literal ''100'' False), None))"
  by code_simp

section \<open>Audit log and pipeline: properties\<close>





section \<open>Schema snapshot under concurrent requests: properties\<close>

lemma count_list_update:
  "i < length xs \<Longrightarrow>
     length (filter P (xs[i := y])) + (if P (xs ! i) then 1 else 0)
       = length (filter P xs) + (if P y then 1 else 0)"
proof (induction xs arbitrary: i)
  case Nil
  then show ?case by simp
next
  case (Cons x xs)
  then show ?case
    by (cases i) auto
qed

lemma set_pc_fields [simp]:
  "schema_lock (set_pc i pc s) = schema_lock s"
  "extractor_lock (set_pc i pc s) = extractor_lock s"
  "extractor_snapshot (set_pc i pc s) = extractor_snapshot s"
  "extractor_timestamp (set_pc i pc s) = extractor_timestamp s"
  "cache_value (set_pc i pc s) = cache_value s"
  "collect_calls (set_pc i pc s) = collect_calls s"
  "wall_clock (set_pc i pc s) = wall_clock s"
  "tasks (set_pc i pc s) = (tasks s)[i := (fst (tasks s ! i), pc)]"
  by (simp_all add: set_pc_def)

lemma count_step:
  assumes "i < length ts" and "ts ! i = (r, pc)"
  shows "length (filter P (ts[i := (r, pc')])) + (if P (r, pc) then 1 else 0)
       = length (filter P ts) + (if P (r, pc') then 1 else 0)"
  using count_list_update [OF assms(1), of P "(r, pc')"] assms(2) by simp

lemma forced_update2:
  assumes "\<forall>t \<in> set ts. fst t \<and> snd t \<noteq> CacheLookup" and "pc \<noteq> CacheLookup"
  shows "\<forall>t \<in> set (ts[i := (fst (ts ! i), pc)]). fst t \<and> snd t \<noteq> CacheLookup"
proof
  fix t assume t: "t \<in> set (ts[i := (fst (ts ! i), pc)])"
  show "fst t \<and> snd t \<noteq> CacheLookup"
  proof (cases "i < length ts")
    case True
    from t have "t \<in> insert (fst (ts ! i), pc) (set ts)"
      using set_update_subset_insert by fastforce
    with assms True show ?thesis by auto
  next
    case False
    with t assms show ?thesis by (auto simp: list_update_beyond)
  qed
qed

lemma carried_bounds_update:
  assumes "\<forall>j < length ts. \<forall>k. carried (ts ! j) = Some k \<longrightarrow> c0 < k \<and> k \<le> cc"
    and "\<forall>k. carried (r, pc') = Some k \<longrightarrow> c0 < k \<and> k \<le> cc'"
    and "cc \<le> cc'"
  shows "\<forall>j < length (ts[i := (r, pc')]). \<forall>k.
     carried (ts[i := (r, pc')] ! j) = Some k \<longrightarrow> c0 < k \<and> k \<le> cc'"
proof (intro allI impI)
  fix j k
  assume j: "j < length (ts[i := (r, pc')])" and k: "carried (ts[i := (r, pc')] ! j) = Some k"
  show "c0 < k \<and> k \<le> cc'"
  proof (cases "j = i")
    case True
    with j k assms(2) show ?thesis by simp
  next
    case False
    with j k assms(1,3) show ?thesis by fastforce
  qed
qed

lemma carried_distinct_update:
  assumes "\<forall>a < length ts. \<forall>b < length ts. \<forall>k.
      a \<noteq> b \<and> carried (ts ! a) = Some k \<longrightarrow> carried (ts ! b) \<noteq> Some k"
    and "i < length ts"
    and "carried (r, pc') = carried (ts ! i)
         \<or> (\<forall>k. carried (r, pc') = Some k \<longrightarrow> (\<forall>b < length ts. carried (ts ! b) \<noteq> Some k))"
  shows "\<forall>a < length (ts[i := (r, pc')]). \<forall>b < length (ts[i := (r, pc')]). \<forall>k.
      a \<noteq> b \<and> carried (ts[i := (r, pc')] ! a) = Some k
        \<longrightarrow> carried (ts[i := (r, pc')] ! b) \<noteq> Some k"
proof (intro allI impI)
  fix a b k
  assume a: "a < length (ts[i := (r, pc')])" and b: "b < length (ts[i := (r, pc')])"
    and ab: "a \<noteq> b \<and> carried (ts[i := (r, pc')] ! a) = Some k"
  show "carried (ts[i := (r, pc')] ! b) \<noteq> Some k"
  proof (cases "a = i")
    case True
    with ab b have nb: "b \<noteq> i" "b < length ts" and k: "carried (r, pc') = Some k"
      using assms(2) by auto
    from assms(3) show ?thesis
    proof
      assume "carried (r, pc') = carried (ts ! i)"
      with k assms(1,2) nb have "carried (ts ! b) \<noteq> Some k"
        by metis
      with nb show ?thesis by simp
    next
      assume "\<forall>k. carried (r, pc') = Some k \<longrightarrow> (\<forall>b < length ts. carried (ts ! b) \<noteq> Some k)"
      with k nb show ?thesis by simp
    qed
  next
    case na: False
    with ab a have ka: "carried (ts ! a) = Some k" "a < length ts"
      by auto
    show ?thesis
    proof (cases "b = i")
      case True
      from assms(3) show ?thesis
      proof
        assume "carried (r, pc') = carried (ts ! i)"
        moreover from assms(1,2) ka na have "carried (ts ! i) \<noteq> Some k"
          by metis
        ultimately show ?thesis
          using True assms(2) by simp
      next
        assume "\<forall>k. carried (r, pc') = Some k \<longrightarrow> (\<forall>b < length ts. carried (ts ! b) \<noteq> Some k)"
        with ka have "carried (r, pc') \<noteq> Some k"
          by blast
        with True assms(2) show ?thesis by simp
      qed
    next
      case False
      with ab b ka assms(1) have "carried (ts ! b) \<noteq> Some k"
        by (metis length_list_update)
      with False show ?thesis by simp
    qed
  qed
qed

lemma has_collected_carried: "has_collected t \<longleftrightarrow> carried t \<noteq> None"
  by (cases t rule: has_collected.cases) simp_all

lemma invariant_pc_change:
  assumes inv: "forced_refresh_invariant c0 s"
    and i: "i < length (tasks s)" and task: "tasks s ! i = (r, pc)"
    and tasks': "tasks s' = (tasks s)[i := (r, pc')]"
    and pc': "pc' \<noteq> CacheLookup"
    and sl: "(if schema_lock s' then 1 else 0) + (if in_schema_lock (r, pc) then 1 else 0)
        = (if schema_lock s then 1 else (0::nat)) + (if in_schema_lock (r, pc') then 1 else 0)"
    and el: "(if extractor_lock s' then 1 else 0) + (if is_collecting (r, pc) then 1 else 0)
        = (if extractor_lock s then 1 else (0::nat)) + (if is_collecting (r, pc') then 1 else 0)"
    and car: "(carried (r, pc') = carried (r, pc) \<and> collect_calls s' = collect_calls s)
        \<or> (carried (r, pc) = None \<and> carried (r, pc') = Some (collect_calls s + 1)
             \<and> collect_calls s' = collect_calls s + 1)"
  shows "forced_refresh_invariant c0 s'"
proof -
  let ?ts = "tasks s"
  from inv have forced: "\<forall>t \<in> set ?ts. fst t \<and> snd t \<noteq> CacheLookup"
    and locked: "length (filter in_schema_lock ?ts) = (if schema_lock s then 1 else 0)"
    and collecting: "length (filter is_collecting ?ts) = (if extractor_lock s then 1 else 0)"
    and calls: "collect_calls s = c0 + length (filter has_collected ?ts)"
    and bounds: "\<forall>j < length ?ts. \<forall>k. carried (?ts ! j) = Some k \<longrightarrow>
           c0 < k \<and> k \<le> collect_calls s"
    and different: "\<forall>a < length ?ts. \<forall>b < length ?ts. \<forall>k.
           a \<noteq> b \<and> carried (?ts ! a) = Some k \<longrightarrow> carried (?ts ! b) \<noteq> Some k"
    unfolding forced_refresh_invariant_def by blast+
  from task have r: "fst (?ts ! i) = r" by simp
  have 1: "\<forall>t \<in> set (tasks s'). fst t \<and> snd t \<noteq> CacheLookup"
    using forced_update2 [OF forced pc', of i] r by (simp add: tasks')
  have 2: "length (filter in_schema_lock (tasks s')) = (if schema_lock s' then 1 else 0)"
    using count_step [OF i task, of in_schema_lock pc'] locked sl
    unfolding tasks' by linarith
  have 3: "length (filter is_collecting (tasks s')) = (if extractor_lock s' then 1 else 0)"
    using count_step [OF i task, of is_collecting pc'] collecting el
    unfolding tasks' by linarith
  have more: "collect_calls s \<le> collect_calls s'"
    using car by auto
  have 4: "collect_calls s' = c0 + length (filter has_collected (tasks s'))"
    using count_step [OF i task, of has_collected pc'] calls car
    unfolding tasks' has_collected_carried by auto
  have new: "\<forall>k. carried (r, pc') = Some k \<longrightarrow> c0 < k \<and> k \<le> collect_calls s'"
    using car
  proof
    assume "carried (r, pc') = carried (r, pc) \<and> collect_calls s' = collect_calls s"
    moreover from bounds i have "\<forall>k. carried (?ts ! i) = Some k \<longrightarrow> c0 < k \<and> k \<le> collect_calls s"
      by blast
    ultimately show ?thesis using task by simp
  next
    assume "carried (r, pc) = None \<and> carried (r, pc') = Some (collect_calls s + 1)
             \<and> collect_calls s' = collect_calls s + 1"
    with calls show ?thesis by auto
  qed
  have 5: "\<forall>j < length (tasks s'). \<forall>k. carried (tasks s' ! j) = Some k \<longrightarrow>
           c0 < k \<and> k \<le> collect_calls s'"
    unfolding tasks' by (rule carried_bounds_update [OF bounds new more])
  have fresh: "carried (r, pc') = carried (?ts ! i)
         \<or> (\<forall>k. carried (r, pc') = Some k \<longrightarrow> (\<forall>b < length ?ts. carried (?ts ! b) \<noteq> Some k))"
    using car
  proof
    assume "carried (r, pc') = carried (r, pc) \<and> collect_calls s' = collect_calls s"
    with task show ?thesis by simp
  next
    assume "carried (r, pc) = None \<and> carried (r, pc') = Some (collect_calls s + 1)
             \<and> collect_calls s' = collect_calls s + 1"
    moreover have "\<forall>b < length ?ts. carried (?ts ! b) \<noteq> Some (collect_calls s + 1)"
    proof (intro allI impI)
      fix b assume "b < length ?ts"
      with bounds have "carried (?ts ! b) = Some (collect_calls s + 1)
          \<longrightarrow> collect_calls s + 1 \<le> collect_calls s"
        by blast
      then show "carried (?ts ! b) \<noteq> Some (collect_calls s + 1)"
        by auto
    qed
    ultimately show ?thesis by simp
  qed
  have 6: "\<forall>a < length (tasks s'). \<forall>b < length (tasks s'). \<forall>k.
           a \<noteq> b \<and> carried (tasks s' ! a) = Some k \<longrightarrow> carried (tasks s' ! b) \<noteq> Some k"
    unfolding tasks' by (rule carried_distinct_update [OF different i fresh])
  show ?thesis
    unfolding forced_refresh_invariant_def by (intro conjI 1 2 3 4 5 6)
qed

lemma step_task_invariant:
  assumes inv: "forced_refresh_invariant c0 s"
  shows "forced_refresh_invariant c0 (step_task cfg i s)"
proof (cases "i < length (tasks s)")
  case False
  with inv show ?thesis by (simp add: step_task_def)
next
  case True
  obtain r pc where task: "tasks s ! i = (r, pc)"
    by (cases "tasks s ! i")
  from True have "tasks s ! i \<in> set (tasks s)"
    by simp
  with inv task have r: r and pc: "pc \<noteq> CacheLookup"
    unfolding forced_refresh_invariant_def by auto
  from inv have locked: "length (filter in_schema_lock (tasks s)) = (if schema_lock s then 1 else 0)"
    and collecting: "length (filter is_collecting (tasks s)) = (if extractor_lock s then 1 else 0)"
    unfolding forced_refresh_invariant_def by blast+
  have inside: "1 \<le> length (filter P (tasks s))" if "P (r, pc)" for P
  proof -
    from True task have "(r, pc) \<in> set (tasks s)"
      using nth_mem [of i "tasks s"] by simp
    with that have "(r, pc) \<in> set (filter P (tasks s))"
      by simp
    then have "filter P (tasks s) \<noteq> []"
      by (metis empty_iff empty_set)
    then show ?thesis
      by (cases "filter P (tasks s)") simp_all
  qed
  note change = invariant_pc_change [OF inv True task]
  show ?thesis
  proof (cases pc)
    case Start
    with True task r have "step_task cfg i s = set_pc i WaitSchemaLock s"
      by (simp add: step_task_def)
    moreover have "forced_refresh_invariant c0 (set_pc i WaitSchemaLock s)"
      using Start task by (intro change [where pc' = WaitSchemaLock]) simp_all
    ultimately show ?thesis by simp
  next
    case CacheLookup
    with pc show ?thesis by simp
  next
    case WaitSchemaLock
    show ?thesis
    proof (cases "schema_lock s")
      case held: True
      with True task WaitSchemaLock inv show ?thesis
        by (simp add: step_task_def)
    next
      case False
      with True task r WaitSchemaLock
      have "step_task cfg i s = set_pc i WaitExtractorLock (s\<lparr>schema_lock := True\<rparr>)"
        by (simp add: step_task_def)
      moreover have "forced_refresh_invariant c0 (set_pc i WaitExtractorLock (s\<lparr>schema_lock := True\<rparr>))"
        using WaitSchemaLock task False by (intro change [where pc' = WaitExtractorLock]) simp_all
      ultimately show ?thesis by simp
    qed
  next
    case WaitExtractorLock
    show ?thesis
    proof (cases "extractor_lock s")
      case held: True
      with True task WaitExtractorLock inv show ?thesis
        by (simp add: step_task_def)
    next
      case False
      let ?s' = "set_pc i (Collecting (collect_calls s + 1))
          (s\<lparr>extractor_lock := True, collect_calls := collect_calls s + 1\<rparr>)"
      from False True task r WaitExtractorLock have "step_task cfg i s = ?s'"
        by (simp add: step_task_def)
      moreover have "forced_refresh_invariant c0 ?s'"
        using WaitExtractorLock task False
        by (intro change [where pc' = "Collecting (collect_calls s + 1)"]) simp_all
      ultimately show ?thesis by simp
    qed
  next
    case (Collecting k)
    let ?s' = "set_pc i (CacheStore k)
        (s\<lparr>extractor_snapshot := k, extractor_timestamp := Some (wall_clock s),
           extractor_lock := False\<rparr>)"
    from True task Collecting have "step_task cfg i s = ?s'"
      by (simp add: step_task_def)
    moreover from inside [of is_collecting] collecting Collecting have "extractor_lock s"
      by (auto split: if_splits)
    then have "forced_refresh_invariant c0 ?s'"
      using Collecting task by (intro change [where pc' = "CacheStore k"]) simp_all
    ultimately show ?thesis by simp
  next
    case (CacheStore k)
    let ?s' = "set_pc i (Returned k) (s\<lparr>cache_value := Some k, schema_lock := False\<rparr>)"
    from True task CacheStore have "step_task cfg i s = ?s'"
      by (simp add: step_task_def)
    moreover from inside [of in_schema_lock] locked CacheStore have "schema_lock s"
      by (auto split: if_splits)
    then have "forced_refresh_invariant c0 ?s'"
      using CacheStore task by (intro change [where pc' = "Returned k"]) simp_all
    ultimately show ?thesis by simp
  next
    case (Returned k)
    with True task inv show ?thesis
      by (simp add: step_task_def)
  qed
qed

lemma step_task_length: "length (tasks (step_task cfg i s)) = length (tasks s)"
proof (cases "snd (tasks s ! i)")
qed (simp_all add: step_task_def set_pc_def Let_def split: option.splits)

lemma step_event_length: "length (tasks (step_event cfg s e)) = length (tasks s)"
  by (cases e) (simp_all add: step_task_length)

lemma run_schedule_length: "length (tasks (run_schedule cfg events s)) = length (tasks s)"
  unfolding run_schedule_def
  by (induction events arbitrary: s) (simp_all add: step_event_length)

lemma filter_replicate_False: "\<not> P x \<Longrightarrow> filter P (replicate n x) = []"
  by (induction n) simp_all

lemma forced_refresh_start_invariant: "forced_refresh_invariant 0 (forced_refresh_start n)"
  unfolding forced_refresh_invariant_def forced_refresh_start_def
  by (simp add: filter_replicate_False)

lemma invariant_fields:
  assumes "tasks s' = tasks s" and "schema_lock s' = schema_lock s"
    and "extractor_lock s' = extractor_lock s" and "collect_calls s' = collect_calls s"
  shows "forced_refresh_invariant c0 s' = forced_refresh_invariant c0 s"
  unfolding forced_refresh_invariant_def by (simp only: assms)

lemma step_event_invariant:
  assumes "forced_refresh_invariant c0 s"
  shows "forced_refresh_invariant c0 (step_event cfg s e)"
proof (cases e)
  case (Run i)
  with assms show ?thesis by (simp add: step_task_invariant)
next
  case (Tick d)
  have "forced_refresh_invariant c0 (s\<lparr>wall_clock := w\<rparr>) = forced_refresh_invariant c0 s" for w
    by (rule invariant_fields) simp_all
  with assms Tick show ?thesis by simp
qed

lemma run_schedule_invariant:
  assumes "forced_refresh_invariant c0 s"
  shows "forced_refresh_invariant c0 (run_schedule cfg events s)"
  using assms unfolding run_schedule_def
proof (induction events arbitrary: s)
  case Nil
  then show ?case by simp
next
  case (Cons e events)
  from Cons.prems have "forced_refresh_invariant c0 (step_event cfg s e)"
    by (rule step_event_invariant)
  then have "forced_refresh_invariant c0 (foldl (step_event cfg) (step_event cfg s e) events)"
    by (rule Cons.IH)
  then show ?case by simp
qed

text \<open>
  C9. Under forced refresh nothing is shared. In every state that \<open>n\<close> requests with
  \<open>refresh = True\<close> reach under any schedule, every request that has got past the
  extractor's lock has begun a \<open>_collect\<close> of its own, so that \<open>_collect\<close> has run \<open>n\<close> times
  once all \<open>n\<close> requests have returned; at most one \<open>_collect\<close> is in flight at a time; and
  two requests never return the same snapshot.
\<close>

theorem forced_refresh_collects_per_request:
  "length (tasks (run_schedule cfg events (forced_refresh_start n))) = n
   \<and> collect_calls (run_schedule cfg events (forced_refresh_start n))
       = length (filter has_collected (tasks (run_schedule cfg events (forced_refresh_start n))))
   \<and> length (filter is_collecting (tasks (run_schedule cfg events (forced_refresh_start n)))) \<le> 1
   \<and> (\<forall>i < n. \<forall>j < n. \<forall>k.
         i \<noteq> j \<and> snd (tasks (run_schedule cfg events (forced_refresh_start n)) ! i) = Returned k \<longrightarrow>
         snd (tasks (run_schedule cfg events (forced_refresh_start n)) ! j) \<noteq> Returned k)
   \<and> ((\<forall>t \<in> set (tasks (run_schedule cfg events (forced_refresh_start n))).
          \<exists>k. snd t = Returned k) \<longrightarrow>
        collect_calls (run_schedule cfg events (forced_refresh_start n)) = n)"
proof -
  define s where "s = run_schedule cfg events (forced_refresh_start n)"
  have inv: "forced_refresh_invariant 0 s"
    unfolding s_def by (rule run_schedule_invariant) (rule forced_refresh_start_invariant)
  have len: "length (tasks s) = n"
    unfolding s_def using run_schedule_length [of cfg events "forced_refresh_start n"]
    by (simp add: forced_refresh_start_def)
  from inv have calls0: "collect_calls s = 0 + length (filter has_collected (tasks s))"
    and collecting: "length (filter is_collecting (tasks s)) = (if extractor_lock s then 1 else 0)"
    and different: "\<forall>i < length (tasks s). \<forall>j < length (tasks s). \<forall>k.
           i \<noteq> j \<and> carried (tasks s ! i) = Some k \<longrightarrow> carried (tasks s ! j) \<noteq> Some k"
    unfolding forced_refresh_invariant_def by blast+
  from calls0 have calls: "collect_calls s = length (filter has_collected (tasks s))"
    by simp
  from collecting have one: "length (filter is_collecting (tasks s)) \<le> 1"
    by (cases "extractor_lock s") simp_all
  have returned: "carried t = Some k" if "snd t = Returned k" for t k
    using that by (cases t) simp
  have results: "snd (tasks s ! j) \<noteq> Returned k"
    if "i < n" "j < n" "i \<noteq> j \<and> snd (tasks s ! i) = Returned k" for i j k
  proof
    assume "snd (tasks s ! j) = Returned k"
    with that returned have "carried (tasks s ! i) = Some k" "carried (tasks s ! j) = Some k"
      by blast+
    with different that len show False
      by blast
  qed
  have all: "collect_calls s = n" if "\<forall>t \<in> set (tasks s). \<exists>k. snd t = Returned k"
  proof -
    have "has_collected t" if "t \<in> set (tasks s)" for t
      using that \<open>\<forall>t \<in> set (tasks s). \<exists>k. snd t = Returned k\<close> returned
      unfolding has_collected_carried by fastforce
    then have "filter has_collected (tasks s) = tasks s"
      by (simp add: filter_id_conv)
    with calls len show ?thesis by simp
  qed
  have "length (tasks s) = n
   \<and> collect_calls s = length (filter has_collected (tasks s))
   \<and> length (filter is_collecting (tasks s)) \<le> 1
   \<and> (\<forall>i < n. \<forall>j < n. \<forall>k.
         i \<noteq> j \<and> snd (tasks s ! i) = Returned k \<longrightarrow> snd (tasks s ! j) \<noteq> Returned k)
   \<and> ((\<forall>t \<in> set (tasks s). \<exists>k. snd t = Returned k) \<longrightarrow> collect_calls s = n)"
  proof (intro conjI allI impI)
    show "length (tasks s) = n" by (rule len)
    show "collect_calls s = length (filter has_collected (tasks s))" by (rule calls)
    show "length (filter is_collecting (tasks s)) \<le> 1" by (rule one)
    show "snd (tasks s ! j) \<noteq> Returned k"
      if "i < n" "j < n" "i \<noteq> j \<and> snd (tasks s ! i) = Returned k" for i j k
      using that by (rule results)
    show "collect_calls s = n" if "\<forall>t \<in> set (tasks s). \<exists>k. snd t = Returned k"
      using that by (rule all)
  qed
  then show ?thesis
    unfolding s_def .
qed

text \<open>
  Two requests with \<open>refresh = True\<close>: the second waits for the schema lock while the
  first collects, then collects again; \<open>_collect\<close> has run twice and the two requests
  return different snapshots.
\<close>

theorem forced_refresh_single_flight_counterexample:
  "tasks (run_schedule \<lparr>refresh_interval_s = 3600, max_schema_slice_bytes = 8192, ranker_top_n = 8\<rparr>
       [Run 0, Run 0, Run 0, Run 1, Run 1] (forced_refresh_start 2))
     = [(True, Collecting 1), (True, WaitSchemaLock)]
   \<and> tasks (run_schedule \<lparr>refresh_interval_s = 3600, max_schema_slice_bytes = 8192, ranker_top_n = 8\<rparr>
       [Run 0, Run 0, Run 0, Run 1, Run 1, Run 0, Run 0, Run 1, Run 1, Run 1, Run 1]
       (forced_refresh_start 2))
     = [(True, Returned 1), (True, Returned 2)]
   \<and> collect_calls (run_schedule
       \<lparr>refresh_interval_s = 3600, max_schema_slice_bytes = 8192, ranker_top_n = 8\<rparr>
       [Run 0, Run 0, Run 0, Run 1, Run 1, Run 0, Run 0, Run 1, Run 1, Run 1, Run 1]
       (forced_refresh_start 2)) = 2"
  by code_simp

theorem forced_refresh_collects_per_request_witness:
  "collect_calls (run_schedule
       \<lparr>refresh_interval_s = 3600, max_schema_slice_bytes = 8192, ranker_top_n = 8\<rparr>
       [Run 0, Run 0, Run 0, Run 1, Run 1, Run 0, Run 0, Run 1, Run 1, Run 1, Run 1]
       (forced_refresh_start 2)) = 2"
proof -
  let ?cfg = "\<lparr>refresh_interval_s = 3600, max_schema_slice_bytes = 8192, ranker_top_n = 8\<rparr>"
  let ?events = "[Run 0, Run 0, Run 0, Run 1, Run 1, Run 0, Run 0, Run 1, Run 1, Run 1, Run 1]"
  define s where "s = run_schedule ?cfg ?events (forced_refresh_start 2)"
  have "tasks s = [(True, Returned 1), (True, Returned 2)]"
    unfolding s_def by code_simp
  then have "\<forall>t \<in> set (tasks s). \<exists>k. snd t = Returned k"
    by simp
  with forced_refresh_collects_per_request [of ?cfg ?events 2, folded s_def]
  have "collect_calls s = 2"
    by blast
  then show ?thesis
    unfolding s_def .
qed

end
